theory Spec2Isabelle
  imports Complex_Main
begin

section \<open>Data model (src/api/todo-api.ts, src/api/fake-socket.ts)\<close>

text \<open>
  A \<open>Todo\<close> is the object \<^verbatim>\<open>{description, done}\<close>. The field \<^verbatim>\<open>done\<close> is called
  \<open>todo_done\<close> here, \<^verbatim>\<open>done\<close> being a reserved word of the proof language.
\<close>

record Todo =
  description :: string
  todo_done :: bool

text \<open>
  The elements of a JavaScript array of todos. Besides a todo object, a position of the
  array can be a hole (an index below \<^verbatim>\<open>length\<close> that holds nothing, left by an assignment
  beyond the end), the value \<^verbatim>\<open>undefined\<close> (what spreading a hole gives) or the empty
  object \<^verbatim>\<open>{}\<close> (what \<^verbatim>\<open>{...undefined}\<close> gives).
\<close>

datatype slot = Hole | Undefined | EmptyObject | Item Todo

record TodoList =
  items :: "slot list"
  name :: string

text \<open>
  \<^verbatim>\<open>ApiResponseWrapper<T> = ApiResponseError | {response: T}\<close>: the value the promise of a
  call settles with.
\<close>

datatype 'a ApiResponseWrapper = ApiResponseError int string | Response 'a

datatype RawMessage =
    CreateListMessage TodoList
  | DeleteListMessage int
  | AddTodoMessage int Todo
  | RemoveTodoMessage int int
  | MoveTodoMessage int int int
  | EditTodoMessage int int Todo

text \<open>\<^verbatim>\<open>SocketMessage = RawMessage & {sequenceId: number}\<close>.\<close>

datatype SocketMessage = SocketMessage (msg_sequenceId: int) (msg_raw: RawMessage)

text \<open>
  A \<open>SocketClient\<close> is an object compared by reference (\<^verbatim>\<open>!==\<close>); it is modelled by its
  identity. What \<^verbatim>\<open>handleMessage\<close> does is outside the repository: a call of it is
  recorded in the trace \<open>handled\<close>, oldest call first, and is assumed to return without
  raising and without calling back into the socket.
\<close>

type_synonym SocketClient = nat

text \<open>
  The state of the two module singletons: the fields of \<^verbatim>\<open>TodoApi\<close> (\<open>successRate\<close>,
  \<open>todos\<close>), the fields of \<^verbatim>\<open>FakeSocket\<close> (\<open>clients\<close>, \<open>sequenceId\<close>) and the trace
  of the calls of \<^verbatim>\<open>handleMessage\<close>.
\<close>

record world =
  successRate :: real
  todos :: "TodoList list"
  clients :: "SocketClient list"
  sequenceId :: int
  handled :: "(SocketClient \<times> SocketMessage) list"

text \<open>The two constructors.\<close>

definition init :: world where
  "init = \<lparr>successRate = 1, todos = [], clients = [], sequenceId = 0, handled = []\<rparr>"

section \<open>JavaScript array primitives\<close>

text \<open>
  Indices are JavaScript numbers; the model takes the integral ones (\<open>int\<close>).
  \<open>array_get\<close> is the read \<^verbatim>\<open>xs[i]\<close>: \<^verbatim>\<open>undefined\<close> (here \<open>None\<close>) outside the array.
\<close>

definition array_get :: "'a list \<Rightarrow> int \<Rightarrow> 'a option" where
  "array_get xs i = (if 0 \<le> i \<and> i < int (length xs) then Some (xs ! nat i) else None)"

text \<open>
  The start position of \<^verbatim>\<open>Array.prototype.splice\<close>: a negative start counts from the
  end, and the result is clamped to \<open>0 .. length\<close>.
\<close>

definition splice_start :: "int \<Rightarrow> nat \<Rightarrow> nat" where
  "splice_start start len =
     (if start < 0 then nat (max (int len + start) 0) else min (nat start) len)"

text \<open>
  \<^verbatim>\<open>xs.splice(start, deleteCount, ...ins)\<close>: the removed elements and the array
  afterwards.
\<close>

definition array_splice :: "'a list \<Rightarrow> int \<Rightarrow> nat \<Rightarrow> 'a list \<Rightarrow> 'a list \<times> 'a list" where
  "array_splice xs start deleteCount ins =
     (let a = splice_start start (length xs);
          d = min deleteCount (length xs - a)
      in (take d (drop a xs), take a xs @ ins @ drop (a + d) xs))"

text \<open>
  The assignment \<^verbatim>\<open>xs[i] = v\<close>. Below the length it replaces the element; at or beyond
  the length it extends the array, leaving holes in between; a negative \<open>i\<close>, or one
  from \<open>2^32 - 1\<close> on, is not an array index: the assignment sets an ordinary property
  of the array object, which no operation of the repository reads, and the elements
  stay as they are.
\<close>

definition array_set :: "slot list \<Rightarrow> int \<Rightarrow> slot \<Rightarrow> slot list" where
  "array_set xs i v =
     (if i < 0 \<or> 4294967295 \<le> i then xs
      else if nat i < length xs then xs[nat i := v]
      else xs @ replicate (nat i - length xs) Hole @ [v])"

text \<open>The spread \<^verbatim>\<open>...xs\<close> of an array iterates it: a hole is read as \<^verbatim>\<open>undefined\<close>.\<close>

definition spread_array :: "slot list \<Rightarrow> slot list" where
  "spread_array xs = map (\<lambda>x. if x = Hole then Undefined else x) xs"

text \<open>
  \<^verbatim>\<open>todolist.items.map((todo) => {return {...todo}})\<close> on one element: \<^verbatim>\<open>map\<close> skips
  a hole and keeps it, and the object spread of \<^verbatim>\<open>undefined\<close> is the empty object.
\<close>

fun copy_slot :: "slot \<Rightarrow> slot" where
  "copy_slot Hole = Hole"
| "copy_slot Undefined = EmptyObject"
| "copy_slot EmptyObject = EmptyObject"
| "copy_slot (Item t) = Item t"

section \<open>FakeSocket\<close>

definition addListener :: "world \<Rightarrow> SocketClient \<Rightarrow> world" where
  "addListener s client = s\<lparr>clients := clients s @ [client]\<rparr>"

definition removeListener :: "world \<Rightarrow> SocketClient \<Rightarrow> world" where
  "removeListener s client =
     s\<lparr>clients := filter (\<lambda>currentClient. currentClient \<noteq> client) (clients s)\<rparr>"

text \<open>
  \<^verbatim>\<open>dispatchMessage\<close>: for each client in array order, build the message stamped with
  the field \<open>sequenceId\<close> and hand it to the client. The body assigns no field.
\<close>

definition dispatchMessage :: "world \<Rightarrow> RawMessage \<Rightarrow> world" where
  "dispatchMessage s message =
     s\<lparr>handled := handled s @
          map (\<lambda>client. (client, SocketMessage (sequenceId s) message)) (clients s)\<rparr>"

section \<open>TodoApi\<close>

text \<open>
  \<^verbatim>\<open>isSuccess\<close> compares a draw of \<^verbatim>\<open>Math.random()\<close> with the success rate. The draw is
  the argument \<open>rnd\<close> of every operation below. Each operation is the body of the
  callback that \<^verbatim>\<open>setTimeout\<close> runs after the simulated latency: it runs to its end
  without interleaving, takes the state and returns the state afterwards with the value
  the promise settles with.
\<close>

definition isSuccess :: "real \<Rightarrow> real \<Rightarrow> bool" where
  "isSuccess rate rnd = (rnd < rate)"

definition buildErrorResponse :: "int \<Rightarrow> string \<Rightarrow> 'a ApiResponseWrapper" where
  "buildErrorResponse code descr = ApiResponseError code descr"

text \<open>
  A promise settles once: the first call of \<^verbatim>\<open>resolve\<close> or \<^verbatim>\<open>reject\<close> decides its value
  and a later call does nothing. \<open>settled\<close> is what an earlier call has decided, if any.
\<close>

fun settle :: "'a ApiResponseWrapper option \<Rightarrow> 'a ApiResponseWrapper \<Rightarrow> 'a ApiResponseWrapper" where
  "settle (Some r) _ = r"
| "settle None r = r"

definition getTodoLists :: "world \<Rightarrow> real \<Rightarrow> world \<times> TodoList list ApiResponseWrapper" where
  "getTodoLists s rnd =
     (if isSuccess (successRate s) rnd then
        (s, Response (map (\<lambda>todolist.
               \<lparr>items = map copy_slot (items todolist), name = name todolist\<rparr>) (todos s)))
      else (s, buildErrorResponse 500 ''internal error''))"

definition createList :: "world \<Rightarrow> real \<Rightarrow> string \<Rightarrow> world \<times> int ApiResponseWrapper" where
  "createList s rnd nm =
     (if isSuccess (successRate s) rnd then
        (let s1 = s\<lparr>todos := todos s @ [\<lparr>items = [], name = nm\<rparr>]\<rparr>;
             len = int (length (todos s1));
             s2 = dispatchMessage s1 (CreateListMessage
                    \<lparr>items = spread_array (items (last (todos s1))),
                     name = name (last (todos s1))\<rparr>)
         in (s2, Response (len - 1)))
      else (s, buildErrorResponse 500 ''internal error''))"

text \<open>
  In the five operations below the index check calls \<^verbatim>\<open>reject\<close> and the body goes on
  (there is no \<^verbatim>\<open>return\<close>): the promise is settled with the 400 error, and the
  statements after the check still run. A read of \<^verbatim>\<open>this.todos[listIndex].items\<close>
  with \<^verbatim>\<open>listIndex\<close> outside the array raises a TypeError, which the \<^verbatim>\<open>catch\<close>
  turns into \<^verbatim>\<open>reject(500)\<close> with the state as it is then.
\<close>

definition deleteList :: "world \<Rightarrow> real \<Rightarrow> int \<Rightarrow> world \<times> bool ApiResponseWrapper" where
  "deleteList s rnd listIndex =
     (if isSuccess (successRate s) rnd then
        (let settled =
               (if listIndex < 0 \<or> listIndex \<ge> int (length (todos s))
                then Some (buildErrorResponse 400 ''index out of bound'') else None);
             s1 = s\<lparr>todos := snd (array_splice (todos s) listIndex 1 [])\<rparr>;
             s2 = dispatchMessage s1 (DeleteListMessage listIndex)
         in (s2, settle settled (Response True)))
      else (s, buildErrorResponse 500 ''internal error''))"

definition addTodo :: "world \<Rightarrow> real \<Rightarrow> int \<Rightarrow> Todo \<Rightarrow> world \<times> bool ApiResponseWrapper" where
  "addTodo s rnd listIndex item =
     (if isSuccess (successRate s) rnd then
        (let settled =
               (if listIndex < 0 \<or> listIndex \<ge> int (length (todos s))
                then Some (buildErrorResponse 400 ''index out of bound'') else None)
         in case array_get (todos s) listIndex of
              None \<Rightarrow> (s, settle settled (buildErrorResponse 500 ''internal error''))
            | Some todolist \<Rightarrow>
                (let s1 = s\<lparr>todos := (todos s)[nat listIndex :=
                             todolist\<lparr>items := items todolist @ [Item item]\<rparr>]\<rparr>;
                     s2 = dispatchMessage s1 (AddTodoMessage listIndex item)
                 in (s2, settle settled (Response True))))
      else (s, buildErrorResponse 500 ''internal error''))"

text \<open>
  In the checks of the next three operations \<^verbatim>\<open>||\<close> evaluates left to right and stops
  at the first true operand, so the length of \<^verbatim>\<open>this.todos[listIndex].items\<close> is read
  only when \<^verbatim>\<open>listIndex\<close> is inside the array.
\<close>

definition removeTodo :: "world \<Rightarrow> real \<Rightarrow> int \<Rightarrow> int \<Rightarrow> world \<times> bool ApiResponseWrapper" where
  "removeTodo s rnd listIndex todoIndex =
     (if isSuccess (successRate s) rnd then
        (let settled =
               (if listIndex < 0 \<or> listIndex \<ge> int (length (todos s)) \<or> todoIndex < 0
                   \<or> todoIndex \<ge> int (length (items (todos s ! nat listIndex)))
                then Some (buildErrorResponse 400 ''index out of bound'') else None)
         in case array_get (todos s) listIndex of
              None \<Rightarrow> (s, settle settled (buildErrorResponse 500 ''internal error''))
            | Some todolist \<Rightarrow>
                (let s1 = s\<lparr>todos := (todos s)[nat listIndex :=
                             todolist\<lparr>items := snd (array_splice (items todolist) todoIndex 1 [])\<rparr>]\<rparr>;
                     s2 = dispatchMessage s1 (RemoveTodoMessage listIndex todoIndex)
                 in (s2, settle settled (Response True))))
      else (s, buildErrorResponse 500 ''internal error''))"

definition moveTodo :: "world \<Rightarrow> real \<Rightarrow> int \<Rightarrow> int \<Rightarrow> int \<Rightarrow> world \<times> bool ApiResponseWrapper" where
  "moveTodo s rnd listIndex sourceIndex destIndex =
     (if isSuccess (successRate s) rnd then
        (let settled =
               (if listIndex < 0 \<or> listIndex \<ge> int (length (todos s)) \<or> sourceIndex < 0
                   \<or> sourceIndex \<ge> int (length (items (todos s ! nat listIndex)))
                then Some (buildErrorResponse 400 ''index out of bound'') else None)
         in case array_get (todos s) listIndex of
              None \<Rightarrow> (s, settle settled (buildErrorResponse 500 ''internal error''))
            | Some todolist \<Rightarrow>
                (let (todo, items1) = array_splice (items todolist) sourceIndex 1 [];
                     realDest = (if destIndex < sourceIndex then destIndex else destIndex - 1);
                     items2 = snd (array_splice items1 realDest 0 (spread_array todo));
                     s1 = s\<lparr>todos := (todos s)[nat listIndex := todolist\<lparr>items := items2\<rparr>]\<rparr>;
                     s2 = dispatchMessage s1 (MoveTodoMessage listIndex sourceIndex destIndex)
                 in (s2, settle settled (Response True))))
      else (s, buildErrorResponse 500 ''internal error''))"

definition editTodo :: "world \<Rightarrow> real \<Rightarrow> int \<Rightarrow> int \<Rightarrow> Todo \<Rightarrow> world \<times> bool ApiResponseWrapper" where
  "editTodo s rnd listIndex itemIndex newValue =
     (if isSuccess (successRate s) rnd then
        (let settled =
               (if listIndex < 0 \<or> listIndex \<ge> int (length (todos s)) \<or> itemIndex < 0
                   \<or> itemIndex \<ge> int (length (items (todos s ! nat listIndex)))
                then Some (buildErrorResponse 400 ''index out of bound'') else None)
         in case array_get (todos s) listIndex of
              None \<Rightarrow> (s, settle settled (buildErrorResponse 500 ''internal error''))
            | Some todolist \<Rightarrow>
                (let s1 = s\<lparr>todos := (todos s)[nat listIndex :=
                             todolist\<lparr>items := array_set (items todolist) itemIndex (Item newValue)\<rparr>]\<rparr>;
                     s2 = dispatchMessage s1 (EditTodoMessage listIndex itemIndex newValue)
                 in (s2, settle settled (Response True))))
      else (s, buildErrorResponse 500 ''internal error''))"

section \<open>Observations and fixtures\<close>

text \<open>The messages a client has been handed so far, oldest first, read off the trace.\<close>

definition received :: "SocketClient \<Rightarrow> world \<Rightarrow> SocketMessage list" where
  "received client s = map snd (filter (\<lambda>(c, m). c = client) (handled s))"

text \<open>A store with one list of the four items A, B, C, D, and no listener.\<close>

definition abcd :: world where
  "abcd = init\<lparr>todos := [\<lparr>items = [Item \<lparr>description = ''A'', todo_done = False\<rparr>,
                                   Item \<lparr>description = ''B'', todo_done = False\<rparr>,
                                   Item \<lparr>description = ''C'', todo_done = False\<rparr>,
                                   Item \<lparr>description = ''D'', todo_done = False\<rparr>],
                          name = ''letters''\<rparr>]\<rparr>"

section \<open>getTodoLists on a store of objects\<close>

text \<open>
  The model above holds the store as a value. Whether the answer of \<^verbatim>\<open>getTodoLists\<close>
  shares objects with the store is a question about references, so the same function is
  modelled a second time on a heap of objects: an address is a position of the heap, and
  \<^verbatim>\<open>new\<close> objects (array, object literal, spread) are put at its end. A \<open>cell\<close> is
  a position of an array: a hole, \<^verbatim>\<open>undefined\<close> or a reference to an object.
\<close>

type_synonym ref = nat

datatype cell = CHole | CUndefined | CRef ref

text \<open>
  The objects: a todo \<^verbatim>\<open>{description, done}\<close>, the empty object \<^verbatim>\<open>{}\<close>, an array,
  and a list \<^verbatim>\<open>{name, items}\<close> with the reference to its array of items.
\<close>

datatype obj =
    TodoObj Todo
  | EmptyObj
  | ArrayObj "cell list"
  | TodoListObj string ref

type_synonym heap = "obj list"

definition deref :: "heap \<Rightarrow> ref \<Rightarrow> obj option" where
  "deref h a = (if a < length h then Some (h ! a) else None)"

definition alloc :: "heap \<Rightarrow> obj \<Rightarrow> heap \<times> ref" where
  "alloc h ob = (h @ [ob], length h)"

text \<open>
  The object that \<^verbatim>\<open>{...todo}\<close> makes: a copy of the fields of the todo, and the empty
  object for \<^verbatim>\<open>undefined\<close>. \<open>None\<close> stands for a value that is not of type
  \<^verbatim>\<open>Todo\<close>; the callback is not called on a hole.
\<close>

fun spread_object :: "heap \<Rightarrow> cell \<Rightarrow> obj option" where
  "spread_object h CHole = None"
| "spread_object h CUndefined = Some EmptyObj"
| "spread_object h (CRef a) =
     (case deref h a of
        Some (TodoObj t) \<Rightarrow> Some (TodoObj t)
      | Some EmptyObj \<Rightarrow> Some EmptyObj
      | _ \<Rightarrow> None)"

text \<open>
  \<^verbatim>\<open>todolist.items.map((todo) => {return {...todo}})\<close>: the heap afterwards and the
  elements of the new array. A hole is skipped and stays a hole.
\<close>

fun copy_items :: "heap \<Rightarrow> cell list \<Rightarrow> (heap \<times> cell list) option" where
  "copy_items h [] = Some (h, [])"
| "copy_items h (todo # rest) =
     (if todo = CHole then map_option (apsnd (Cons CHole)) (copy_items h rest)
      else case spread_object h todo of
             None \<Rightarrow> None
           | Some ob \<Rightarrow>
               (case alloc h ob of (h1, r) \<Rightarrow>
                  map_option (apsnd (Cons (CRef r))) (copy_items h1 rest)))"

text \<open>
  The callback of the outer \<^verbatim>\<open>map\<close>: a new array of copied items and a new object
  \<^verbatim>\<open>{name, items}\<close> that refers to it. \<open>None\<close> stands for an element that is not a
  \<^verbatim>\<open>TodoList\<close> (the read of its fields raises).
\<close>

fun copy_list :: "heap \<Rightarrow> cell \<Rightarrow> (heap \<times> ref) option" where
  "copy_list h (CRef a) =
     (case deref h a of
        Some (TodoListObj nm ir) \<Rightarrow>
          (case deref h ir of
             Some (ArrayObj todoItems) \<Rightarrow>
               (case copy_items h todoItems of
                  None \<Rightarrow> None
                | Some (h1, copied) \<Rightarrow>
                    (case alloc h1 (ArrayObj copied) of (h2, ir') \<Rightarrow>
                       Some (alloc h2 (TodoListObj nm ir'))))
           | _ \<Rightarrow> None)
      | _ \<Rightarrow> None)"
| "copy_list h _ = None"

text \<open>\<^verbatim>\<open>this.todos.map((todolist) => ...)\<close>.\<close>

fun copy_lists :: "heap \<Rightarrow> cell list \<Rightarrow> (heap \<times> cell list) option" where
  "copy_lists h [] = Some (h, [])"
| "copy_lists h (todolist # rest) =
     (if todolist = CHole then map_option (apsnd (Cons CHole)) (copy_lists h rest)
      else case copy_list h todolist of
             None \<Rightarrow> None
           | Some (h1, r) \<Rightarrow> map_option (apsnd (Cons (CRef r))) (copy_lists h1 rest))"

text \<open>
  \<^verbatim>\<open>getTodoLists\<close> with \<^verbatim>\<open>this.todos\<close> at address \<open>todosRef\<close>: the heap afterwards
  and the answer, which on success is the address of the new array of lists. The order
  in which the new objects are put on the heap is not the one of the engine (which makes
  the array of a \<^verbatim>\<open>map\<close> before its elements); addresses cannot be observed by the
  program, so the order does not matter.
\<close>

definition getTodoLists_obj ::
  "real \<Rightarrow> heap \<Rightarrow> ref \<Rightarrow> real \<Rightarrow> (heap \<times> ref ApiResponseWrapper) option" where
  "getTodoLists_obj rate h todosRef rnd =
     (if isSuccess rate rnd then
        (case deref h todosRef of
           Some (ArrayObj todoLists) \<Rightarrow>
             (case copy_lists h todoLists of
                None \<Rightarrow> None
              | Some (h1, copied) \<Rightarrow>
                  (case alloc h1 (ArrayObj copied) of (h2, r) \<Rightarrow> Some (h2, Response r)))
         | _ \<Rightarrow> None)
      else Some (h, buildErrorResponse 500 ''internal error''))"

text \<open>
  Reading a value back from the heap: the slot an array position stands for, the
  \<open>TodoList\<close> a list object stands for, and the store an array of lists stands for.
  \<open>None\<close> when the objects do not have the shape of \<^verbatim>\<open>TodoList[]\<close>.
\<close>

fun abs_obj :: "obj \<Rightarrow> slot option" where
  "abs_obj (TodoObj t) = Some (Item t)"
| "abs_obj EmptyObj = Some EmptyObject"
| "abs_obj _ = None"

fun abs_item :: "heap \<Rightarrow> cell \<Rightarrow> slot option" where
  "abs_item h CHole = Some Hole"
| "abs_item h CUndefined = Some Undefined"
| "abs_item h (CRef a) = (case deref h a of None \<Rightarrow> None | Some ob \<Rightarrow> abs_obj ob)"

fun abs_items :: "heap \<Rightarrow> cell list \<Rightarrow> slot list option" where
  "abs_items h [] = Some []"
| "abs_items h (c # cs) =
     (case abs_item h c of
        None \<Rightarrow> None
      | Some v \<Rightarrow> map_option (Cons v) (abs_items h cs))"

fun abs_list :: "heap \<Rightarrow> cell \<Rightarrow> TodoList option" where
  "abs_list h (CRef a) =
     (case deref h a of
        Some (TodoListObj nm ir) \<Rightarrow>
          (case deref h ir of
             Some (ArrayObj cs) \<Rightarrow>
               map_option (\<lambda>vs. \<lparr>items = vs, name = nm\<rparr>) (abs_items h cs)
           | _ \<Rightarrow> None)
      | _ \<Rightarrow> None)"
| "abs_list h _ = None"

fun abs_lists :: "heap \<Rightarrow> cell list \<Rightarrow> TodoList list option" where
  "abs_lists h [] = Some []"
| "abs_lists h (c # cs) =
     (case abs_list h c of
        None \<Rightarrow> None
      | Some l \<Rightarrow> map_option (Cons l) (abs_lists h cs))"

definition abs_todos :: "heap \<Rightarrow> ref \<Rightarrow> TodoList list option" where
  "abs_todos h r =
     (case deref h r of Some (ArrayObj cs) \<Rightarrow> abs_lists h cs | _ \<Rightarrow> None)"

text \<open>
  The addresses an array of lists is made of: the array itself, its list objects, their
  arrays of items and the item objects.
\<close>

fun cell_refs :: "cell list \<Rightarrow> ref list" where
  "cell_refs [] = []"
| "cell_refs (CRef a # cs) = a # cell_refs cs"
| "cell_refs (_ # cs) = cell_refs cs"

definition list_addrs :: "heap \<Rightarrow> ref \<Rightarrow> ref list" where
  "list_addrs h a =
     a # (case deref h a of
            Some (TodoListObj nm ir) \<Rightarrow>
              ir # (case deref h ir of Some (ArrayObj cs) \<Rightarrow> cell_refs cs | _ \<Rightarrow> [])
          | _ \<Rightarrow> [])"

definition reachable :: "heap \<Rightarrow> ref \<Rightarrow> ref list" where
  "reachable h r =
     r # (case deref h r of
            Some (ArrayObj cs) \<Rightarrow> concat (map (list_addrs h) (cell_refs cs))
          | _ \<Rightarrow> [])"

text \<open>\<open>heap_le h g\<close>: the heap \<open>g\<close> starts with the objects of \<open>h\<close>, unchanged.\<close>

definition heap_le :: "heap \<Rightarrow> heap \<Rightarrow> bool" where
  "heap_le h g = (length h \<le> length g \<and> take (length h) g = h)"

text \<open>
  Not part of the program: a heap built for a given store, each list and each item an
  object of its own, with the array of lists last. It shows that every store of the
  value model is the reading of some heap (\<open>store_todos_abs\<close> below).
\<close>

fun store_items :: "heap \<Rightarrow> slot list \<Rightarrow> heap \<times> cell list" where
  "store_items h [] = (h, [])"
| "store_items h (Hole # vs) = apsnd (Cons CHole) (store_items h vs)"
| "store_items h (Undefined # vs) = apsnd (Cons CUndefined) (store_items h vs)"
| "store_items h (EmptyObject # vs) =
     apsnd (Cons (CRef (length h))) (store_items (h @ [EmptyObj]) vs)"
| "store_items h (Item t # vs) =
     apsnd (Cons (CRef (length h))) (store_items (h @ [TodoObj t]) vs)"

fun store_lists :: "heap \<Rightarrow> TodoList list \<Rightarrow> heap \<times> cell list" where
  "store_lists h [] = (h, [])"
| "store_lists h (l # ls) =
     (case store_items h (items l) of (h1, cs) \<Rightarrow>
        apsnd (Cons (CRef (Suc (length h1))))
          (store_lists (h1 @ [ArrayObj cs, TodoListObj (name l) (length h1)]) ls))"

definition store_todos :: "TodoList list \<Rightarrow> heap \<times> ref" where
  "store_todos ts = (case store_lists [] ts of (h, cs) \<Rightarrow> (h @ [ArrayObj cs], length h))"

text \<open>
  A heap for the store with the one list \<open>work\<close> holding the one item
  \<open>buy milk\<close>; \<^verbatim>\<open>this.todos\<close> is at address 3.
\<close>

definition store_example :: heap where
  "store_example =
     [TodoObj \<lparr>description = ''buy milk'', todo_done = False\<rparr>,
      ArrayObj [CRef 0],
      TodoListObj ''work'' 1,
      ArrayObj [CRef 2]]"

section \<open>Basic facts\<close>

lemmas api_defs = getTodoLists_def createList_def deleteList_def addTodo_def removeTodo_def
  moveTodo_def editTodo_def buildErrorResponse_def isSuccess_def init_def dispatchMessage_def
  array_splice_def splice_start_def array_get_def array_set_def spread_array_def addListener_def
  removeListener_def Let_def

lemma dispatchMessage_fields:
  "successRate (dispatchMessage s m) = successRate s"
  "todos (dispatchMessage s m) = todos s"
  "clients (dispatchMessage s m) = clients s"
  "sequenceId (dispatchMessage s m) = sequenceId s"
  by (simp_all add: dispatchMessage_def)

lemma received_dispatchMessage:
  "received c (dispatchMessage s m) =
     received c s @ replicate (count_list (clients s) c) (SocketMessage (sequenceId s) m)"
proof -
  have "map snd (filter (\<lambda>(c', m'). c' = c) (map (\<lambda>cl. (cl, x)) cs)) =
        replicate (count_list cs c) x"
    for x :: SocketMessage and cs
    by (induction cs) auto
  then show ?thesis
    by (simp add: received_def dispatchMessage_def)
qed

lemma received_foldl_dispatchMessage:
  "c \<notin> set (clients s) \<Longrightarrow> received c (foldl dispatchMessage s ms) = received c s"
proof (induction ms arbitrary: s)
  case Nil
  then show ?case by simp
next
  case (Cons m ms)
  have "c \<notin> set (clients (dispatchMessage s m))"
    using Cons.prems by (simp add: dispatchMessage_fields)
  then have "received c (foldl dispatchMessage (dispatchMessage s m) ms) =
             received c (dispatchMessage s m)"
    by (rule Cons.IH)
  also have "\<dots> = received c s"
    using Cons.prems by (simp add: received_dispatchMessage count_list_0_iff)
  finally show ?case by simp
qed

lemma foldl_dispatchMessage_fields:
  "clients (foldl dispatchMessage s ms) = clients s"
  "sequenceId (foldl dispatchMessage s ms) = sequenceId s"
  "todos (foldl dispatchMessage s ms) = todos s"
  by (induction ms arbitrary: s) (simp_all add: dispatchMessage_fields)

lemma handled_foldl_dispatchMessage:
  "handled (foldl dispatchMessage s ms) =
     handled s @ concat (map (\<lambda>m. map (\<lambda>client. (client, SocketMessage (sequenceId s) m))
                                    (clients s)) ms)"
proof (induction ms arbitrary: s)
  case Nil
  then show ?case by simp
next
  case (Cons m ms)
  have "handled (foldl dispatchMessage (dispatchMessage s m) ms) =
        handled (dispatchMessage s m) @
        concat (map (\<lambda>m'. map (\<lambda>client. (client, SocketMessage (sequenceId s) m'))
                                (clients s)) ms)"
    by (simp add: Cons.IH dispatchMessage_fields)
  moreover have "handled (dispatchMessage s m) =
        handled s @ map (\<lambda>client. (client, SocketMessage (sequenceId s) m)) (clients s)"
    by (simp add: dispatchMessage_def)
  ultimately show ?case by simp
qed

lemma received_run_of_dispatches:
  "received c (foldl dispatchMessage s ms) =
     received c s @ concat (map (\<lambda>m. replicate (count_list (clients s) c)
                                        (SocketMessage (sequenceId s) m)) ms)"
proof (induction ms arbitrary: s)
  case Nil
  then show ?case by simp
next
  case (Cons m ms)
  have "received c (foldl dispatchMessage (dispatchMessage s m) ms) =
        received c (dispatchMessage s m) @
        concat (map (\<lambda>m'. replicate (count_list (clients s) c)
                                        (SocketMessage (sequenceId s) m')) ms)"
    by (simp add: Cons.IH dispatchMessage_fields)
  then show ?case by (simp add: received_dispatchMessage)
qed

lemma clients_foldl_addListener:
  "clients (foldl addListener s cs) = clients s @ cs"
  by (induction cs arbitrary: s) (simp_all add: addListener_def)

lemma splice_remove_one:
  assumes "0 \<le> i" "i < int (length xs)"
  shows "array_splice xs i 1 [] = ([xs ! nat i], take (nat i) xs @ drop (Suc (nat i)) xs)"
proof -
  from assms have n: "nat i < length xs" by simp
  then have d: "drop (nat i) xs = xs ! nat i # drop (Suc (nat i)) xs"
    by (simp add: Cons_nth_drop_Suc)
  have s: "splice_start i (length xs) = nat i"
    using assms by (simp add: splice_start_def)
  have m: "min 1 (length xs - nat i) = 1"
    using n by simp
  show ?thesis
    unfolding array_splice_def Let_def s m by (simp add: d)
qed

lemma splice_insert:
  "array_splice xs p 0 ins =
     ([], take (splice_start p (length xs)) xs @ ins @ drop (splice_start p (length xs)) xs)"
  by (simp add: array_splice_def Let_def)

section \<open>Index checks (C1, C4)\<close>

text \<open>
  What does hold of the index checks: with a successful draw, an index out of range is
  answered with the 400 error by every indexed operation, and a list index out of range
  leaves the state of \<open>addTodo\<close>, \<open>removeTodo\<close>, \<open>moveTodo\<close> and
  \<open>editTodo\<close> as it was (the read of the list raises before anything is changed).
\<close>

lemma out_of_range_settles_400:
  assumes "isSuccess (successRate s) rnd"
  shows "listIndex < 0 \<or> listIndex \<ge> int (length (todos s)) \<Longrightarrow>
           snd (deleteList s rnd listIndex) = ApiResponseError 400 ''index out of bound''"
    and "listIndex < 0 \<or> listIndex \<ge> int (length (todos s)) \<Longrightarrow>
           snd (addTodo s rnd listIndex item) = ApiResponseError 400 ''index out of bound''"
    and "listIndex < 0 \<or> listIndex \<ge> int (length (todos s)) \<or> itemIndex < 0
           \<or> itemIndex \<ge> int (length (items (todos s ! nat listIndex))) \<Longrightarrow>
           snd (removeTodo s rnd listIndex itemIndex) = ApiResponseError 400 ''index out of bound''
         \<and> snd (moveTodo s rnd listIndex itemIndex destIndex) =
             ApiResponseError 400 ''index out of bound''
         \<and> snd (editTodo s rnd listIndex itemIndex item) =
             ApiResponseError 400 ''index out of bound''"
  using assms
  by (auto simp: deleteList_def addTodo_def removeTodo_def moveTodo_def editTodo_def
      buildErrorResponse_def Let_def split: option.splits prod.splits)

lemma out_of_range_listIndex_no_effect:
  assumes "listIndex < 0 \<or> listIndex \<ge> int (length (todos s))"
  shows "fst (addTodo s rnd listIndex item) = s"
    and "fst (removeTodo s rnd listIndex itemIndex) = s"
    and "fst (moveTodo s rnd listIndex itemIndex destIndex) = s"
    and "fst (editTodo s rnd listIndex itemIndex item) = s"
  using assms
  by (auto simp: addTodo_def removeTodo_def moveTodo_def editTodo_def array_get_def Let_def)

text \<open>
  A call that answers with a response has handed each client exactly one message, the
  one of the operation with the arguments of the call.
\<close>

lemma success_dispatches_once:
  "snd (createList s rnd nm) = Response i \<Longrightarrow>
     handled (fst (createList s rnd nm)) =
       handled (dispatchMessage s (CreateListMessage \<lparr>items = [], name = nm\<rparr>))"
  "snd (deleteList s rnd listIndex) = Response b \<Longrightarrow>
     handled (fst (deleteList s rnd listIndex)) =
       handled (dispatchMessage s (DeleteListMessage listIndex))"
  "snd (addTodo s rnd listIndex item) = Response b \<Longrightarrow>
     handled (fst (addTodo s rnd listIndex item)) =
       handled (dispatchMessage s (AddTodoMessage listIndex item))"
  "snd (removeTodo s rnd listIndex itemIndex) = Response b \<Longrightarrow>
     handled (fst (removeTodo s rnd listIndex itemIndex)) =
       handled (dispatchMessage s (RemoveTodoMessage listIndex itemIndex))"
  "snd (moveTodo s rnd listIndex itemIndex destIndex) = Response b \<Longrightarrow>
     handled (fst (moveTodo s rnd listIndex itemIndex destIndex)) =
       handled (dispatchMessage s (MoveTodoMessage listIndex itemIndex destIndex))"
  "snd (editTodo s rnd listIndex itemIndex item) = Response b \<Longrightarrow>
     handled (fst (editTodo s rnd listIndex itemIndex item)) =
       handled (dispatchMessage s (EditTodoMessage listIndex itemIndex item))"
  by (auto simp: createList_def deleteList_def addTodo_def removeTodo_def moveTodo_def
      editTodo_def buildErrorResponse_def dispatchMessage_def spread_array_def Let_def
      split: option.splits prod.splits if_splits)

text \<open>
  C1. The claim: an indexed operation called with an index out of range settles with the
  400 error and leaves the store as it was. The code settles with the 400 error, but the
  check does not return, and the statements after it run. Here the store holds the one
  list \<open>work\<close>, made by \<open>createList\<close>, and \<open>deleteList\<close> is called with index \<open>-1\<close>:
  the answer is the 400 error, and \<^verbatim>\<open>splice(-1, 1)\<close> has removed the list.
\<close>

theorem deleteList_negative_index_removes_list:
  "todos (fst (createList init 0 ''work'')) = [\<lparr>items = [], name = ''work''\<rparr>]
   \<and> snd (deleteList (fst (createList init 0 ''work'')) 0 (- 1)) =
        ApiResponseError 400 ''index out of bound''
   \<and> todos (fst (deleteList (fst (createList init 0 ''work'')) 0 (- 1))) = []"
  by (simp add: api_defs)

text \<open>
  C4. The claim: a call that reports an error applies no mutation and dispatches no
  notification. With one listener, the list \<open>work\<close> and one item in it,
  \<open>removeTodo\<close> with item index \<open>-1\<close> settles with the 400 error; the state
  afterwards has lost the item, and the listener has been handed a third message, the
  \<open>removeTodo\<close> one.
\<close>

theorem removeTodo_error_mutates_and_notifies:
  "removeTodo
     (fst (addTodo (fst (createList (addListener init 1) 0 ''work'')) 0 0
        \<lparr>description = ''buy milk'', todo_done = False\<rparr>)) 0 0 (- 1) =
   (\<lparr>successRate = 1, todos = [\<lparr>items = [], name = ''work''\<rparr>], clients = [1],
     sequenceId = 0,
     handled =
       [(1, SocketMessage 0 (CreateListMessage \<lparr>items = [], name = ''work''\<rparr>)),
        (1, SocketMessage 0
              (AddTodoMessage 0 \<lparr>description = ''buy milk'', todo_done = False\<rparr>)),
        (1, SocketMessage 0 (RemoveTodoMessage 0 (- 1)))]\<rparr>,
    ApiResponseError 400 ''index out of bound'')"
  by (simp add: api_defs)

section \<open>The sequence counter (C2)\<close>

text \<open>
  C2. The claim: the counter goes up by one per dispatched notification, so a listener
  sees 0, 1, ..., N-1. \<open>dispatchMessage\<close> reads the counter and never assigns it
  (\<open>dispatchMessage_fields\<close>): after two successful \<open>createList\<close> calls the one
  listener has been handed two messages, both stamped 0, and the counter is still 0.
\<close>

theorem sequenceId_stays_zero:
  "map (\<lambda>(client, m). msg_sequenceId m)
     (handled (fst (createList (fst (createList (addListener init 1) 0 ''a'')) 0 ''b''))) =
     [0, 0]
   \<and> sequenceId (fst (createList (fst (createList (addListener init 1) 0 ''a'')) 0 ''b'')) = 0"
  by (simp add: api_defs)

section \<open>Moving an item (C3, C10)\<close>

text \<open>
  C3. The claim: the item is put back at \<open>destIndex - 1\<close> when \<open>destIndex\<close> is greater
  than \<open>sourceIndex\<close> and at \<open>destIndex\<close> otherwise, so that equal indices leave the
  list as it is. The code tests \<open>destIndex < sourceIndex\<close>, and equal indices take the
  \<open>destIndex - 1\<close> branch: on A, B, C, D, moving index 1 to index 1 succeeds and gives
  B, A, C, D, and moving index 0 to index 0 inserts at position \<open>-1\<close>, which
  \<^verbatim>\<open>splice\<close> counts from the end, and gives B, C, A, D.
\<close>

theorem moveTodo_same_index_changes_list:
  "snd (moveTodo abcd 0 0 1 1) = Response True
   \<and> map items (todos (fst (moveTodo abcd 0 0 1 1))) =
       [[Item \<lparr>description = ''B'', todo_done = False\<rparr>,
         Item \<lparr>description = ''A'', todo_done = False\<rparr>,
         Item \<lparr>description = ''C'', todo_done = False\<rparr>,
         Item \<lparr>description = ''D'', todo_done = False\<rparr>]]
   \<and> map items (todos (fst (moveTodo abcd 0 0 0 0))) =
       [[Item \<lparr>description = ''B'', todo_done = False\<rparr>,
         Item \<lparr>description = ''C'', todo_done = False\<rparr>,
         Item \<lparr>description = ''A'', todo_done = False\<rparr>,
         Item \<lparr>description = ''D'', todo_done = False\<rparr>]]"
  by (simp add: api_defs abcd_def)

text \<open>
  C10. With a valid list index and a valid source index, \<open>moveTodo\<close> answers
  \<open>true\<close> whenever the draw succeeds, whatever \<open>destIndex\<close> is (and the 500 error
  when the draw fails): it never answers with the 400 error. The item lands where
  \<^verbatim>\<open>splice\<close> puts it: with \<open>rest\<close> the items without the moved one and \<open>realDest\<close>
  the position the code computes, a negative \<open>realDest\<close> counts from the end of
  \<open>rest\<close> and stops at 0, and any other stops at the length of \<open>rest\<close>.
\<close>

theorem moveTodo_destIndex_unchecked:
  assumes "0 \<le> listIndex" "listIndex < int (length (todos s))"
    and "0 \<le> sourceIndex" "sourceIndex < int (length (items (todos s ! nat listIndex)))"
  shows "snd (moveTodo s rnd listIndex sourceIndex destIndex) =
           (if isSuccess (successRate s) rnd then Response True
            else ApiResponseError 500 ''internal error'')
       \<and> (isSuccess (successRate s) rnd \<longrightarrow>
           todos (fst (moveTodo s rnd listIndex sourceIndex destIndex)) =
             (todos s)[nat listIndex := (todos s ! nat listIndex)\<lparr>items :=
                (let xs = items (todos s ! nat listIndex);
                     rest = take (nat sourceIndex) xs @ drop (Suc (nat sourceIndex)) xs;
                     realDest = (if destIndex < sourceIndex then destIndex else destIndex - 1);
                     p = (if realDest < 0 then nat (max (int (length rest) + realDest) 0)
                          else min (nat realDest) (length rest))
                 in take p rest @ spread_array [xs ! nat sourceIndex] @ drop p rest)\<rparr>])"
proof -
  have g: "array_get (todos s) listIndex = Some (todos s ! nat listIndex)"
    using assms(1,2) by (simp add: array_get_def)
  have r: "array_splice (items (todos s ! nat listIndex)) sourceIndex (Suc 0) [] =
      ([items (todos s ! nat listIndex) ! nat sourceIndex],
       take (nat sourceIndex) (items (todos s ! nat listIndex)) @
       drop (Suc (nat sourceIndex)) (items (todos s ! nat listIndex)))"
    using splice_remove_one [OF assms(3,4)] by simp
  show ?thesis
    using assms
    by (simp add: moveTodo_def g r splice_insert Let_def dispatchMessage_fields
        buildErrorResponse_def splice_start_def)
qed

theorem moveTodo_destIndex_unchecked_witness:
  "(0::int) \<le> 0 \<and> 0 < int (length (todos abcd))
   \<and> (0::int) \<le> 1 \<and> 1 < int (length (items (todos abcd ! nat 0)))
   \<and> isSuccess (successRate abcd) 0
   \<and> snd (moveTodo abcd 0 0 1 7) = Response True
   \<and> map items (todos (fst (moveTodo abcd 0 0 1 7))) =
       [[Item \<lparr>description = ''A'', todo_done = False\<rparr>,
         Item \<lparr>description = ''C'', todo_done = False\<rparr>,
         Item \<lparr>description = ''D'', todo_done = False\<rparr>,
         Item \<lparr>description = ''B'', todo_done = False\<rparr>]]
   \<and> snd (moveTodo abcd 0 0 1 (- 9)) = Response True
   \<and> map items (todos (fst (moveTodo abcd 0 0 1 (- 9)))) =
       [[Item \<lparr>description = ''B'', todo_done = False\<rparr>,
         Item \<lparr>description = ''A'', todo_done = False\<rparr>,
         Item \<lparr>description = ''C'', todo_done = False\<rparr>,
         Item \<lparr>description = ''D'', todo_done = False\<rparr>]]"
proof -
  have h: "(0::int) \<le> 0" "0 < int (length (todos abcd))"
    "(0::int) \<le> 1" "1 < int (length (items (todos abcd ! nat 0)))"
    by (simp_all add: abcd_def init_def)
  have i: "isSuccess (successRate abcd) 0"
    by (simp add: abcd_def init_def isSuccess_def)
  show ?thesis
    using h i moveTodo_destIndex_unchecked [OF h, of 0 7]
      moveTodo_destIndex_unchecked [OF h, of 0 "- 9"]
    by (simp add: abcd_def init_def spread_array_def)
qed

section \<open>The failed draw (C5)\<close>

text \<open>
  C5. When the draw fails, each of the seven operations settles with the error of code
  500 and description \<open>internal error\<close>, and the whole state is the one before the
  call: the store is not changed and no client is handed a message.
\<close>

theorem failed_draw_is_500_without_effect:
  assumes "\<not> isSuccess (successRate s) rnd"
  shows "getTodoLists s rnd = (s, ApiResponseError 500 ''internal error'')
       \<and> createList s rnd nm = (s, ApiResponseError 500 ''internal error'')
       \<and> deleteList s rnd listIndex = (s, ApiResponseError 500 ''internal error'')
       \<and> addTodo s rnd listIndex item = (s, ApiResponseError 500 ''internal error'')
       \<and> removeTodo s rnd listIndex itemIndex = (s, ApiResponseError 500 ''internal error'')
       \<and> moveTodo s rnd listIndex itemIndex destIndex =
           (s, ApiResponseError 500 ''internal error'')
       \<and> editTodo s rnd listIndex itemIndex item = (s, ApiResponseError 500 ''internal error'')"
  using assms
  by (simp add: getTodoLists_def createList_def deleteList_def addTodo_def removeTodo_def
      moveTodo_def editTodo_def buildErrorResponse_def)

theorem failed_draw_is_500_without_effect_witness:
  "\<not> isSuccess (successRate (abcd\<lparr>successRate := 1/2\<rparr>)) (3/4)
   \<and> getTodoLists (abcd\<lparr>successRate := 1/2\<rparr>) (3/4) =
       (abcd\<lparr>successRate := 1/2\<rparr>, ApiResponseError 500 ''internal error'')
   \<and> createList (abcd\<lparr>successRate := 1/2\<rparr>) (3/4) ''work'' =
       (abcd\<lparr>successRate := 1/2\<rparr>, ApiResponseError 500 ''internal error'')
   \<and> deleteList (abcd\<lparr>successRate := 1/2\<rparr>) (3/4) 0 =
       (abcd\<lparr>successRate := 1/2\<rparr>, ApiResponseError 500 ''internal error'')
   \<and> addTodo (abcd\<lparr>successRate := 1/2\<rparr>) (3/4) 0
         \<lparr>description = ''buy milk'', todo_done = False\<rparr> =
       (abcd\<lparr>successRate := 1/2\<rparr>, ApiResponseError 500 ''internal error'')
   \<and> removeTodo (abcd\<lparr>successRate := 1/2\<rparr>) (3/4) 0 2 =
       (abcd\<lparr>successRate := 1/2\<rparr>, ApiResponseError 500 ''internal error'')
   \<and> moveTodo (abcd\<lparr>successRate := 1/2\<rparr>) (3/4) 0 2 1 =
       (abcd\<lparr>successRate := 1/2\<rparr>, ApiResponseError 500 ''internal error'')
   \<and> editTodo (abcd\<lparr>successRate := 1/2\<rparr>) (3/4) 0 2
         \<lparr>description = ''buy milk'', todo_done = False\<rparr> =
       (abcd\<lparr>successRate := 1/2\<rparr>, ApiResponseError 500 ''internal error'')"
proof -
  have h: "\<not> isSuccess (successRate (abcd\<lparr>successRate := 1/2\<rparr>)) (3/4)"
    by (simp add: isSuccess_def)
  show ?thesis
    using h failed_draw_is_500_without_effect
      [OF h, of "''work''" 0 "\<lparr>description = ''buy milk'', todo_done = False\<rparr>" 2 1]
    by simp
qed

section \<open>Creating a list (C6)\<close>

text \<open>
  C6. When the draw succeeds, \<open>createList\<close> leaves the store as it was with one more
  list at the end, which has the given name and no items, and answers with the index of
  that list: the length of the store before the call.
\<close>

theorem createList_appends_and_returns_index:
  assumes "isSuccess (successRate s) rnd"
  shows "todos (fst (createList s rnd nm)) = todos s @ [\<lparr>items = [], name = nm\<rparr>]
       \<and> snd (createList s rnd nm) = Response (int (length (todos s)))"
  using assms by (simp add: createList_def Let_def dispatchMessage_fields)

theorem createList_appends_and_returns_index_witness:
  "isSuccess (successRate abcd) 0
   \<and> todos (fst (createList abcd 0 ''work'')) =
       todos abcd @ [\<lparr>items = [], name = ''work''\<rparr>]
   \<and> snd (createList abcd 0 ''work'') = Response 1"
proof -
  have h: "isSuccess (successRate abcd) 0"
    by (simp add: isSuccess_def init_def abcd_def)
  show ?thesis
    using h createList_appends_and_returns_index [OF h, of "''work''"]
    by (simp add: abcd_def)
qed

section \<open>Reading the lists (C7)\<close>

lemma heap_le_refl: "heap_le h h"
  by (simp add: heap_le_def)

lemma heap_le_trans: "heap_le h g \<Longrightarrow> heap_le g k \<Longrightarrow> heap_le h k"
proof -
  assume a: "heap_le h g" and b: "heap_le g k"
  from a have "take (length h) (take (length g) k) = take (length h) k"
    by (simp add: heap_le_def min_def)
  with a b show ?thesis
    by (auto simp: heap_le_def)
qed

lemma heap_le_append: "heap_le h (h @ ext)"
  by (simp add: heap_le_def)

lemma heap_le_update: "heap_le h g \<Longrightarrow> length h \<le> a \<Longrightarrow> heap_le h (g[a := ob])"
  by (simp add: heap_le_def)

lemma deref_le: "heap_le h g \<Longrightarrow> deref h a = Some ob \<Longrightarrow> deref g a = Some ob"
proof -
  assume le: "heap_le h g" and d: "deref h a = Some ob"
  from d have a: "a < length h" and ob: "h ! a = ob"
    by (auto simp: deref_def split: if_splits)
  from le a have "g ! a = take (length h) g ! a"
    by simp
  with le a ob show ?thesis
    by (simp add: deref_def heap_le_def)
qed

lemma deref_alloc: "deref (h @ [ob]) (length h) = Some ob"
  by (simp add: deref_def)

lemma abs_item_le: "heap_le h g \<Longrightarrow> abs_item h c = Some v \<Longrightarrow> abs_item g c = Some v"
  by (cases c) (auto split: option.splits dest: deref_le)

lemma abs_items_le: "heap_le h g \<Longrightarrow> abs_items h cs = Some vs \<Longrightarrow> abs_items g cs = Some vs"
proof (induction cs arbitrary: vs)
  case Nil
  then show ?case by simp
next
  case (Cons c cs)
  from Cons.prems(2) obtain v vs' where v: "abs_item h c = Some v"
    and vs': "abs_items h cs = Some vs'" and e: "vs = v # vs'"
    by (auto split: option.splits)
  from Cons.prems(1) v have "abs_item g c = Some v" by (rule abs_item_le)
  moreover from Cons.prems(1) vs' have "abs_items g cs = Some vs'" by (rule Cons.IH)
  ultimately show ?case using e by simp
qed

lemma abs_list_cases:
  assumes "abs_list h c = Some l"
  obtains a ir cs where "c = CRef a" "deref h a = Some (TodoListObj (name l) ir)"
    "deref h ir = Some (ArrayObj cs)" "abs_items h cs = Some (items l)"
proof (cases c)
  case (CRef a)
  with assms obtain nm ir cs vs where "deref h a = Some (TodoListObj nm ir)"
    "deref h ir = Some (ArrayObj cs)" "abs_items h cs = Some vs" "l = \<lparr>items = vs, name = nm\<rparr>"
    by (auto split: option.splits obj.splits)
  with CRef that show ?thesis by simp
qed (use assms in simp_all)

lemma abs_list_CRef_cases:
  assumes "abs_list h (CRef a) = Some l"
  obtains ir cs where "deref h a = Some (TodoListObj (name l) ir)"
    "deref h ir = Some (ArrayObj cs)" "abs_items h cs = Some (items l)"
  using assms by (rule abs_list_cases) simp

lemma abs_list_le:
  assumes "heap_le h g" "abs_list h c = Some l"
  shows "abs_list g c = Some l"
proof -
  from assms(2) obtain a ir cs where c: "c = CRef a"
    and d: "deref h a = Some (TodoListObj (name l) ir)" "deref h ir = Some (ArrayObj cs)"
    and i: "abs_items h cs = Some (items l)"
    by (rule abs_list_cases)
  from assms(1) d have "deref g a = Some (TodoListObj (name l) ir)" "deref g ir = Some (ArrayObj cs)"
    by (auto dest: deref_le)
  moreover from assms(1) i have "abs_items g cs = Some (items l)" by (rule abs_items_le)
  ultimately show ?thesis using c by simp
qed

lemma abs_lists_le: "heap_le h g \<Longrightarrow> abs_lists h cs = Some ls \<Longrightarrow> abs_lists g cs = Some ls"
proof (induction cs arbitrary: ls)
  case Nil
  then show ?case by simp
next
  case (Cons c cs)
  from Cons.prems(2) obtain l ls' where l: "abs_list h c = Some l"
    and ls': "abs_lists h cs = Some ls'" and e: "ls = l # ls'"
    by (auto split: option.splits)
  from Cons.prems(1) l have "abs_list g c = Some l" by (rule abs_list_le)
  moreover from Cons.prems(1) ls' have "abs_lists g cs = Some ls'" by (rule Cons.IH)
  ultimately show ?case using e by simp
qed

lemma abs_todos_le:
  assumes "heap_le h g" "abs_todos h r = Some ts"
  shows "abs_todos g r = Some ts"
proof -
  from assms(2) obtain cs where d: "deref h r = Some (ArrayObj cs)" and a: "abs_lists h cs = Some ts"
    by (auto simp: abs_todos_def split: option.splits obj.splits)
  from assms(1) d have "deref g r = Some (ArrayObj cs)" by (rule deref_le)
  moreover from assms(1) a have "abs_lists g cs = Some ts" by (rule abs_lists_le)
  ultimately show ?thesis by (simp add: abs_todos_def)
qed

lemma spread_object_abs:
  assumes "c \<noteq> CHole" "abs_item h c = Some v"
  shows "\<exists>ob. spread_object h c = Some ob \<and> abs_obj ob = Some (copy_slot v)"
proof (cases c)
  case CHole
  with assms show ?thesis by simp
next
  case CUndefined
  with assms show ?thesis by auto
next
  case (CRef a)
  with assms obtain ob where d: "deref h a = Some ob" and o: "abs_obj ob = Some v"
    by (auto split: option.splits)
  then show ?thesis using CRef
    by (cases ob) auto
qed

lemma copy_items_correct:
  "abs_items h cs = Some vs \<Longrightarrow>
     \<exists>h' cs'. copy_items h cs = Some (h', cs') \<and> heap_le h h'
       \<and> abs_items h' cs' = Some (map copy_slot vs)
       \<and> (\<forall>a \<in> set (cell_refs cs'). length h \<le> a)"
proof (induction cs arbitrary: h vs)
  case Nil
  then show ?case by (auto simp: heap_le_refl)
next
  case (Cons c cs)
  from Cons.prems obtain v vs' where v: "abs_item h c = Some v"
    and vs': "abs_items h cs = Some vs'" and e: "vs = v # vs'"
    by (auto split: option.splits)
  show ?case
  proof (cases "c = CHole")
    case True
    from Cons.IH [OF vs'] obtain h' cs' where r: "copy_items h cs = Some (h', cs')"
      "heap_le h h'" "abs_items h' cs' = Some (map copy_slot vs')"
      "\<forall>a \<in> set (cell_refs cs'). length h \<le> a"
      by blast
    from True v have "v = Hole" by simp
    with True r e show ?thesis by simp
  next
    case False
    from spread_object_abs [OF False v] obtain ob where s: "spread_object h c = Some ob"
      and o: "abs_obj ob = Some (copy_slot v)"
      by blast
    have le1: "heap_le h (h @ [ob])" by (rule heap_le_append)
    from le1 vs' have "abs_items (h @ [ob]) cs = Some vs'" by (rule abs_items_le)
    from Cons.IH [OF this] obtain h' cs' where r: "copy_items (h @ [ob]) cs = Some (h', cs')"
      "heap_le (h @ [ob]) h'" "abs_items h' cs' = Some (map copy_slot vs')"
      "\<forall>a \<in> set (cell_refs cs'). length (h @ [ob]) \<le> a"
      by blast
    have "deref h' (length h) = Some ob"
      using r(2) deref_alloc by (rule deref_le)
    with o have "abs_item h' (CRef (length h)) = Some (copy_slot v)" by simp
    moreover have "heap_le h h'" using le1 r(2) by (rule heap_le_trans)
    moreover have "copy_items h (c # cs) = Some (h', CRef (length h) # cs')"
      using False s r(1) by (simp add: alloc_def)
    ultimately show ?thesis using r(3,4) e by auto
  qed
qed

lemma abs_items_refs_bound:
  "abs_items h cs = Some vs \<Longrightarrow> \<forall>a \<in> set (cell_refs cs). a < length h"
proof (induction cs arbitrary: vs)
  case Nil
  then show ?case by simp
next
  case (Cons c cs)
  then show ?case
    by (cases c) (auto simp: deref_def split: option.splits if_splits)
qed

lemma list_addrs_bound:
  assumes "abs_list h (CRef a) = Some l"
  shows "\<forall>b \<in> set (list_addrs h a). b < length h"
proof -
  from assms obtain ir cs where d: "deref h a = Some (TodoListObj (name l) ir)"
    "deref h ir = Some (ArrayObj cs)" and i: "abs_items h cs = Some (items l)"
    by (rule abs_list_CRef_cases)
  from d have "a < length h" "ir < length h"
    by (auto simp: deref_def split: if_splits)
  with d abs_items_refs_bound [OF i] show ?thesis
    by (simp add: list_addrs_def)
qed

lemma list_addrs_le:
  assumes "heap_le h g" "abs_list h (CRef a) = Some l"
  shows "list_addrs g a = list_addrs h a"
proof -
  from assms(2) obtain ir cs where d: "deref h a = Some (TodoListObj (name l) ir)"
    "deref h ir = Some (ArrayObj cs)"
    by (rule abs_list_CRef_cases)
  from assms(1) d have "deref g a = Some (TodoListObj (name l) ir)" "deref g ir = Some (ArrayObj cs)"
    by (auto dest: deref_le)
  with d show ?thesis by (simp add: list_addrs_def)
qed

lemma copy_list_correct:
  assumes "abs_list h c = Some l"
  shows "\<exists>h' r. copy_list h c = Some (h', r) \<and> heap_le h h'
       \<and> abs_list h' (CRef r) = Some \<lparr>items = map copy_slot (items l), name = name l\<rparr>
       \<and> (\<forall>a \<in> set (list_addrs h' r). length h \<le> a)"
proof -
  from assms obtain a ir cs where c: "c = CRef a"
    and d: "deref h a = Some (TodoListObj (name l) ir)" "deref h ir = Some (ArrayObj cs)"
    and i: "abs_items h cs = Some (items l)"
    by (rule abs_list_cases)
  from copy_items_correct [OF i] obtain h1 cs' where r: "copy_items h cs = Some (h1, cs')"
    "heap_le h h1" "abs_items h1 cs' = Some (map copy_slot (items l))"
    "\<forall>a \<in> set (cell_refs cs'). length h \<le> a"
    by blast
  define h2 where "h2 = h1 @ [ArrayObj cs']"
  define h3 where "h3 = h2 @ [TodoListObj (name l) (length h1)]"
  have cl: "copy_list h c = Some (h3, length h2)"
    using c d r(1) by (simp add: alloc_def h2_def h3_def)
  have le12: "heap_le h1 h2"
    unfolding h2_def by (rule heap_le_append)
  have le23: "heap_le h2 h3"
    unfolding h3_def by (rule heap_le_append)
  have le13: "heap_le h1 h3" using le12 le23 by (rule heap_le_trans)
  have le: "heap_le h h3" using r(2) le13 by (rule heap_le_trans)
  have d3: "deref h3 (length h2) = Some (TodoListObj (name l) (length h1))"
    by (simp add: h3_def deref_alloc)
  have "deref h2 (length h1) = Some (ArrayObj cs')"
    by (simp add: h2_def deref_alloc)
  with le23 have d2: "deref h3 (length h1) = Some (ArrayObj cs')" by (rule deref_le)
  from le13 r(3) have i3: "abs_items h3 cs' = Some (map copy_slot (items l))"
    by (rule abs_items_le)
  have ab: "abs_list h3 (CRef (length h2)) = Some \<lparr>items = map copy_slot (items l), name = name l\<rparr>"
    using d3 d2 i3 by simp
  have len: "length h \<le> length h1" "length h1 \<le> length h2"
    using r(2) by (simp_all add: heap_le_def h2_def)
  have "\<forall>a \<in> set (list_addrs h3 (length h2)). length h \<le> a"
    using d3 d2 r(4) len by (simp add: list_addrs_def)
  with cl le ab show ?thesis by blast
qed

lemma abs_lists_member:
  "abs_lists h cs = Some ls \<Longrightarrow> a \<in> set (cell_refs cs) \<Longrightarrow> \<exists>l. abs_list h (CRef a) = Some l"
proof (induction cs arbitrary: ls)
  case Nil
  then show ?case by simp
next
  case (Cons c cs)
  then show ?case
    by (cases c) (auto split: option.splits)
qed

lemma copy_lists_correct:
  "abs_lists h cs = Some ls \<Longrightarrow>
     \<exists>h' cs'. copy_lists h cs = Some (h', cs') \<and> heap_le h h'
       \<and> abs_lists h' cs' =
           Some (map (\<lambda>todolist. \<lparr>items = map copy_slot (items todolist), name = name todolist\<rparr>) ls)
       \<and> (\<forall>r \<in> set (cell_refs cs'). \<forall>a \<in> set (list_addrs h' r). length h \<le> a)"
proof (induction cs arbitrary: h ls)
  case Nil
  then show ?case by (auto simp: heap_le_refl)
next
  case (Cons c cs)
  from Cons.prems obtain l ls' where l: "abs_list h c = Some l"
    and ls': "abs_lists h cs = Some ls'" and e: "ls = l # ls'"
    by (auto split: option.splits)
  from l have nh: "c \<noteq> CHole" by auto
  from copy_list_correct [OF l] obtain h1 r where c1: "copy_list h c = Some (h1, r)"
    and le1: "heap_le h h1"
    and a1: "abs_list h1 (CRef r) = Some \<lparr>items = map copy_slot (items l), name = name l\<rparr>"
    and f1: "\<forall>a \<in> set (list_addrs h1 r). length h \<le> a"
    by blast
  from le1 ls' have "abs_lists h1 cs = Some ls'" by (rule abs_lists_le)
  from Cons.IH [OF this] obtain h' cs' where c2: "copy_lists h1 cs = Some (h', cs')"
    and le2: "heap_le h1 h'"
    and a2: "abs_lists h' cs' =
           Some (map (\<lambda>todolist. \<lparr>items = map copy_slot (items todolist), name = name todolist\<rparr>) ls')"
    and f2: "\<forall>r \<in> set (cell_refs cs'). \<forall>a \<in> set (list_addrs h' r). length h1 \<le> a"
    by blast
  have cl: "copy_lists h (c # cs) = Some (h', CRef r # cs')"
    using nh c1 c2 by simp
  have le: "heap_le h h'" using le1 le2 by (rule heap_le_trans)
  from le2 a1 have a1': "abs_list h' (CRef r) = Some \<lparr>items = map copy_slot (items l), name = name l\<rparr>"
    by (rule abs_list_le)
  have "list_addrs h' r = list_addrs h1 r" using le2 a1 by (rule list_addrs_le)
  with f1 have f1': "\<forall>a \<in> set (list_addrs h' r). length h \<le> a" by simp
  from le1 have "length h \<le> length h1" by (simp add: heap_le_def)
  with f2 have f2': "\<forall>r \<in> set (cell_refs cs'). \<forall>a \<in> set (list_addrs h' r). length h \<le> a"
    by fastforce
  show ?case
    using cl le a1' a2 f1' f2' e by auto
qed

lemma store_items_abs:
  "heap_le h (fst (store_items h vs)) \<and>
   abs_items (fst (store_items h vs)) (snd (store_items h vs)) = Some vs"
proof (induction h vs rule: store_items.induct)
  case (1 h)
  then show ?case by (simp add: heap_le_refl)
next
  case (2 h vs)
  then show ?case by simp
next
  case (3 h vs)
  then show ?case by simp
next
  case (4 h vs)
  let ?h' = "fst (store_items (h @ [EmptyObj]) vs)"
  from 4 have le: "heap_le (h @ [EmptyObj]) ?h'" by simp
  have "heap_le h (h @ [EmptyObj])" by (rule heap_le_append)
  then have le2: "heap_le h ?h'" using le by (rule heap_le_trans)
  have "deref ?h' (length h) = Some EmptyObj" using le deref_alloc by (rule deref_le)
  with 4 le2 show ?case by simp
next
  case (5 h t vs)
  let ?h' = "fst (store_items (h @ [TodoObj t]) vs)"
  from 5 have le: "heap_le (h @ [TodoObj t]) ?h'" by simp
  have "heap_le h (h @ [TodoObj t])" by (rule heap_le_append)
  then have le2: "heap_le h ?h'" using le by (rule heap_le_trans)
  have "deref ?h' (length h) = Some (TodoObj t)" using le deref_alloc by (rule deref_le)
  with 5 le2 show ?case by simp
qed

lemma store_lists_abs:
  "heap_le h (fst (store_lists h ts)) \<and>
   abs_lists (fst (store_lists h ts)) (snd (store_lists h ts)) = Some ts"
proof (induction ts arbitrary: h)
  case Nil
  then show ?case by (simp add: heap_le_refl)
next
  case (Cons l ls)
  obtain h1 cs where si: "store_items h (items l) = (h1, cs)" by (cases "store_items h (items l)")
  from store_items_abs [of h "items l"] si
  have le1: "heap_le h h1" and ab1: "abs_items h1 cs = Some (items l)" by simp_all
  define h2 where "h2 = h1 @ [ArrayObj cs, TodoListObj (name l) (length h1)]"
  define h3 where "h3 = fst (store_lists h2 ls)"
  from Cons.IH [of h2] have le3: "heap_le h2 h3"
    and ab3: "abs_lists h3 (snd (store_lists h2 ls)) = Some ls"
    by (simp_all add: h3_def)
  have le2: "heap_le h1 h2" unfolding h2_def by (rule heap_le_append)
  have d2: "deref h2 (length h1) = Some (ArrayObj cs)"
    "deref h2 (Suc (length h1)) = Some (TodoListObj (name l) (length h1))"
    by (simp_all add: h2_def deref_def nth_append)
  from le3 d2 have d3: "deref h3 (length h1) = Some (ArrayObj cs)"
    "deref h3 (Suc (length h1)) = Some (TodoListObj (name l) (length h1))"
    by (auto dest: deref_le)
  have "heap_le h1 h3" using le2 le3 by (rule heap_le_trans)
  from this ab1 have "abs_items h3 cs = Some (items l)" by (rule abs_items_le)
  with d3 have "abs_list h3 (CRef (Suc (length h1))) = Some l" by simp
  moreover have "heap_le h h3" using le1 \<open>heap_le h1 h3\<close> by (rule heap_le_trans)
  ultimately show ?case
    using si ab3 by (simp add: h2_def h3_def)
qed

lemma store_todos_abs: "abs_todos (fst (store_todos ts)) (snd (store_todos ts)) = Some ts"
proof -
  obtain h cs where s: "store_lists [] ts = (h, cs)" by (cases "store_lists [] ts")
  with store_lists_abs [of "[]" ts] have "abs_lists h cs = Some ts" by simp
  moreover have "heap_le h (h @ [ArrayObj cs])" by (rule heap_le_append)
  ultimately have "abs_lists (h @ [ArrayObj cs]) cs = Some ts" by (rule abs_lists_le[rotated])
  then show ?thesis using s by (simp add: store_todos_def abs_todos_def deref_alloc)
qed

lemma reachable_bound:
  assumes "abs_todos h r = Some ts"
  shows "\<forall>a \<in> set (reachable h r). a < length h"
proof -
  from assms obtain cs where d: "deref h r = Some (ArrayObj cs)" and a: "abs_lists h cs = Some ts"
    by (auto simp: abs_todos_def split: option.splits obj.splits)
  from d have "r < length h"
    by (simp add: deref_def split: if_splits)
  moreover have "\<forall>b \<in> set (list_addrs h x). b < length h" if "x \<in> set (cell_refs cs)" for x
  proof -
    from a that obtain l where "abs_list h (CRef x) = Some l"
      using abs_lists_member by blast
    then show ?thesis by (rule list_addrs_bound)
  qed
  ultimately show ?thesis
    using d by (auto simp: reachable_def)
qed

lemma reachable_le:
  assumes "heap_le h g" "abs_todos h r = Some ts"
  shows "reachable g r = reachable h r"
proof -
  from assms(2) obtain cs where d: "deref h r = Some (ArrayObj cs)" and a: "abs_lists h cs = Some ts"
    by (auto simp: abs_todos_def split: option.splits obj.splits)
  from assms(1) d have dg: "deref g r = Some (ArrayObj cs)" by (rule deref_le)
  have "list_addrs g x = list_addrs h x" if "x \<in> set (cell_refs cs)" for x
  proof -
    from a that obtain l where "abs_list h (CRef x) = Some l"
      using abs_lists_member by blast
    with assms(1) show ?thesis by (rule list_addrs_le)
  qed
  then have "map (list_addrs g) (cell_refs cs) = map (list_addrs h) (cell_refs cs)"
    by simp
  then have "concat (map (list_addrs g) (cell_refs cs)) = concat (map (list_addrs h) (cell_refs cs))"
    by (rule arg_cong)
  with d dg show ?thesis by (simp add: reachable_def)
qed

lemma getTodoLists_obj_correct:
  assumes "abs_todos h r = Some ts" "isSuccess rate rnd"
  shows "\<exists>h1 r1. getTodoLists_obj rate h r rnd = Some (h1, Response r1) \<and> heap_le h h1
       \<and> abs_todos h1 r1 =
           Some (map (\<lambda>todolist. \<lparr>items = map copy_slot (items todolist), name = name todolist\<rparr>) ts)
       \<and> (\<forall>a \<in> set (reachable h1 r1). length h \<le> a)"
proof -
  from assms(1) obtain cs where d: "deref h r = Some (ArrayObj cs)" and a: "abs_lists h cs = Some ts"
    by (auto simp: abs_todos_def split: option.splits obj.splits)
  from copy_lists_correct [OF a] obtain h' cs' where c: "copy_lists h cs = Some (h', cs')"
    and le: "heap_le h h'"
    and ab: "abs_lists h' cs' =
           Some (map (\<lambda>todolist. \<lparr>items = map copy_slot (items todolist), name = name todolist\<rparr>) ts)"
    and f: "\<forall>x \<in> set (cell_refs cs'). \<forall>a \<in> set (list_addrs h' x). length h \<le> a"
    by blast
  define h1 where "h1 = h' @ [ArrayObj cs']"
  have g: "getTodoLists_obj rate h r rnd = Some (h1, Response (length h'))"
    using assms(2) d c by (simp add: getTodoLists_obj_def alloc_def h1_def)
  have le1: "heap_le h' h1" unfolding h1_def by (rule heap_le_append)
  have le2: "heap_le h h1" using le le1 by (rule heap_le_trans)
  have d1: "deref h1 (length h') = Some (ArrayObj cs')"
    by (simp add: h1_def deref_alloc)
  from le1 ab have ab1: "abs_lists h1 cs' =
           Some (map (\<lambda>todolist. \<lparr>items = map copy_slot (items todolist), name = name todolist\<rparr>) ts)"
    by (rule abs_lists_le)
  have at: "abs_todos h1 (length h') =
           Some (map (\<lambda>todolist. \<lparr>items = map copy_slot (items todolist), name = name todolist\<rparr>) ts)"
    using d1 ab1 by (simp add: abs_todos_def)
  have "\<forall>a \<in> set (list_addrs h1 x). length h \<le> a" if "x \<in> set (cell_refs cs')" for x
  proof -
    from ab that obtain l where "abs_list h' (CRef x) = Some l"
      using abs_lists_member by blast
    with le1 have "list_addrs h1 x = list_addrs h' x" by (rule list_addrs_le)
    with f that show ?thesis by simp
  qed
  moreover from le have "length h \<le> length h'" by (simp add: heap_le_def)
  ultimately have "\<forall>a \<in> set (reachable h1 (length h')). length h \<le> a"
    using d1 by (auto simp: reachable_def)
  with g le2 at show ?thesis by blast
qed

text \<open>
  C7. A successful \<open>getTodoLists\<close> leaves the state as it was, and a second
  successful call answers as the first did. On the heap of objects, with \<open>h\<close> a heap
  whose array at \<open>todosRef\<close> stands for the store (every store has one, by
  \<open>store_todos_abs\<close>): the call returns, no object of
  \<open>h\<close> is changed, the array at \<open>todosRef\<close> still stands for the same store, the
  returned array stands for the answer of the value model, and no address of the
  returned array, lists, item arrays and items is an address of the store. So a second
  call returns an equal value, and it still does after any object of the first answer
  has been overwritten with anything.
\<close>

theorem getTodoLists_reads_and_copies:
  assumes "abs_todos h todosRef = Some (todos s)"
    and "isSuccess (successRate s) rnd" "isSuccess (successRate s) rnd'"
  shows "fst (getTodoLists s rnd) = s
       \<and> snd (getTodoLists (fst (getTodoLists s rnd)) rnd') = snd (getTodoLists s rnd)
       \<and> (\<exists>h1 r1. getTodoLists_obj (successRate s) h todosRef rnd = Some (h1, Response r1)
            \<and> take (length h) h1 = h
            \<and> abs_todos h1 todosRef = Some (todos s)
            \<and> map_option Response (abs_todos h1 r1) = Some (snd (getTodoLists s rnd))
            \<and> set (reachable h1 r1) \<inter> set (reachable h1 todosRef) = {}
            \<and> (\<exists>h2 r2. getTodoLists_obj (successRate s) h1 todosRef rnd' = Some (h2, Response r2)
                  \<and> abs_todos h2 r2 = abs_todos h1 r1)
            \<and> (\<forall>a \<in> set (reachable h1 r1). \<forall>ob. \<exists>h2 r2.
                  getTodoLists_obj (successRate s) (h1[a := ob]) todosRef rnd' =
                    Some (h2, Response r2)
                  \<and> abs_todos h2 r2 = abs_todos h1 r1))"
proof -
  let ?res = "map (\<lambda>todolist. \<lparr>items = map copy_slot (items todolist), name = name todolist\<rparr>) (todos s)"
  have v: "getTodoLists s rnd = (s, Response ?res)" "getTodoLists s rnd' = (s, Response ?res)"
    using assms(2,3) by (simp_all add: getTodoLists_def)
  from getTodoLists_obj_correct [OF assms(1,2)]
  obtain h1 r1 where g: "getTodoLists_obj (successRate s) h todosRef rnd = Some (h1, Response r1)"
    and le: "heap_le h h1" and ab: "abs_todos h1 r1 = Some ?res"
    and fresh: "\<forall>a \<in> set (reachable h1 r1). length h \<le> a"
    by blast
  from le have tk: "take (length h) h1 = h" by (simp add: heap_le_def)
  from le assms(1) have st: "abs_todos h1 todosRef = Some (todos s)" by (rule abs_todos_le)
  from le assms(1) have "reachable h1 todosRef = reachable h todosRef" by (rule reachable_le)
  with reachable_bound [OF assms(1)] have "\<forall>a \<in> set (reachable h1 todosRef). a < length h"
    by simp
  with fresh have dj: "set (reachable h1 r1) \<inter> set (reachable h1 todosRef) = {}"
    by fastforce
  from getTodoLists_obj_correct [OF st assms(3)] ab
  have again: "\<exists>h2 r2. getTodoLists_obj (successRate s) h1 todosRef rnd' = Some (h2, Response r2)
                  \<and> abs_todos h2 r2 = abs_todos h1 r1"
    by auto
  have mut: "\<exists>h2 r2. getTodoLists_obj (successRate s) (h1[a := ob]) todosRef rnd' =
                    Some (h2, Response r2) \<and> abs_todos h2 r2 = abs_todos h1 r1"
    if "a \<in> set (reachable h1 r1)" for a ob
  proof -
    from fresh that have "length h \<le> a" by simp
    with le have "heap_le h (h1[a := ob])" by (rule heap_le_update)
    from this assms(1) have "abs_todos (h1[a := ob]) todosRef = Some (todos s)"
      by (rule abs_todos_le)
    from getTodoLists_obj_correct [OF this assms(3)] ab show ?thesis by auto
  qed
  show ?thesis
    using v g tk st ab dj again mut by auto
qed

theorem getTodoLists_reads_and_copies_witness:
  "abs_todos store_example 3 = Some (todos (init\<lparr>todos :=
       [\<lparr>items = [Item \<lparr>description = ''buy milk'', todo_done = False\<rparr>], name = ''work''\<rparr>]\<rparr>))
   \<and> isSuccess (successRate init) 0
   \<and> getTodoLists_obj 1 store_example 3 0 =
       Some (store_example @
             [TodoObj \<lparr>description = ''buy milk'', todo_done = False\<rparr>,
              ArrayObj [CRef 4], TodoListObj ''work'' 5, ArrayObj [CRef 6]],
             Response 7)
   \<and> map_option (\<lambda>(h2, r2). case r2 of Response r \<Rightarrow> abs_todos h2 r | _ \<Rightarrow> None)
       (getTodoLists_obj 1
          ((store_example @
             [TodoObj \<lparr>description = ''buy milk'', todo_done = False\<rparr>,
              ArrayObj [CRef 4], TodoListObj ''work'' 5, ArrayObj [CRef 6]])
           [4 := TodoObj \<lparr>description = ''changed'', todo_done = True\<rparr>]) 3 0) =
       Some (Some [\<lparr>items = [Item \<lparr>description = ''buy milk'', todo_done = False\<rparr>],
                    name = ''work''\<rparr>])"
proof -
  let ?s = "init\<lparr>todos :=
       [\<lparr>items = [Item \<lparr>description = ''buy milk'', todo_done = False\<rparr>], name = ''work''\<rparr>]\<rparr>"
  have h: "abs_todos store_example 3 = Some (todos ?s)"
    by (simp add: store_example_def abs_todos_def deref_def)
  have i: "isSuccess (successRate ?s) 0"
    by (simp add: isSuccess_def init_def)
  show ?thesis
    using h i getTodoLists_reads_and_copies [OF h i i]
    by (simp add: store_example_def getTodoLists_obj_def deref_def alloc_def isSuccess_def
        init_def abs_todos_def)
qed

section \<open>Listeners (C8, C9)\<close>

text \<open>
  C8. Removing a client that is not among the clients leaves the state as it is. After
  \<open>removeListener\<close> of a client, any run of dispatches hands that client nothing more.
  A dispatch hands the message to the clients in the order of the array \<open>clients\<close>
  and leaves that array as it is, so every dispatch of a run hands its message to the
  same clients in the same order. That order is the order of subscription:
  \<open>addListener\<close> puts the new client last, \<open>removeListener\<close> keeps the others
  in their order, and after the subscriptions \<open>cs\<close> on the initial state each
  message of a run of dispatches is handed to \<open>cs\<close> in that order, one message after
  the other (to \<open>cs\<close> without \<open>c\<close> when \<open>c\<close> has been removed before the run).
\<close>

theorem removeListener_idempotent_and_delivery_in_subscription_order:
  "(c \<notin> set (clients s) \<longrightarrow> removeListener s c = s)
   \<and> received c (foldl dispatchMessage (removeListener s c) ms) = received c s
   \<and> handled (dispatchMessage s m) =
       handled s @ map (\<lambda>client. (client, SocketMessage (sequenceId s) m)) (clients s)
   \<and> clients (addListener s c) = clients s @ [c]
   \<and> clients (removeListener s c) = filter (\<lambda>x. x \<noteq> c) (clients s)
   \<and> handled (dispatchMessage (foldl addListener init cs) m) =
       map (\<lambda>client. (client, SocketMessage 0 m)) cs
   \<and> clients (dispatchMessage s m) = clients s
   \<and> handled (foldl dispatchMessage s ms) =
       handled s @ concat (map (\<lambda>m'. map (\<lambda>client. (client, SocketMessage (sequenceId s) m'))
                                       (clients s)) ms)
   \<and> handled (foldl dispatchMessage (foldl addListener init cs) ms) =
       concat (map (\<lambda>m'. map (\<lambda>client. (client, SocketMessage 0 m')) cs) ms)
   \<and> handled (foldl dispatchMessage (removeListener (foldl addListener init cs) c) ms) =
       concat (map (\<lambda>m'. map (\<lambda>client. (client, SocketMessage 0 m'))
                            (filter (\<lambda>x. x \<noteq> c) cs)) ms)"
proof -
  have "filter (\<lambda>x. x \<noteq> c) xs = xs" if "c \<notin> set xs" for xs :: "SocketClient list"
    using that by (induction xs) auto
  then have a: "c \<notin> set (clients s) \<longrightarrow> removeListener s c = s"
    by (simp add: removeListener_def)
  have "c \<notin> set (clients (removeListener s c))"
    by (simp add: removeListener_def)
  then have "received c (foldl dispatchMessage (removeListener s c) ms) =
             received c (removeListener s c)"
    by (rule received_foldl_dispatchMessage)
  then have b: "received c (foldl dispatchMessage (removeListener s c) ms) = received c s"
    by (simp add: received_def removeListener_def)
  have f: "sequenceId (foldl addListener s' cs) = sequenceId s'
        \<and> handled (foldl addListener s' cs) = handled s'" for s'
    by (induction cs arbitrary: s') (simp_all add: addListener_def)
  then have c: "handled (dispatchMessage (foldl addListener init cs) m) =
       map (\<lambda>client. (client, SocketMessage 0 m)) cs"
    by (simp add: dispatchMessage_def clients_foldl_addListener init_def)
  have d: "handled (foldl dispatchMessage (foldl addListener init cs) ms) =
       concat (map (\<lambda>m'. map (\<lambda>client. (client, SocketMessage 0 m')) cs) ms)"
    by (simp add: handled_foldl_dispatchMessage f clients_foldl_addListener init_def)
  have e: "handled (foldl dispatchMessage (removeListener (foldl addListener init cs) c) ms) =
       concat (map (\<lambda>m'. map (\<lambda>client. (client, SocketMessage 0 m'))
                            (filter (\<lambda>x. x \<noteq> c) cs)) ms)"
    by (simp add: handled_foldl_dispatchMessage removeListener_def f
        clients_foldl_addListener init_def)
  have g: "handled (foldl dispatchMessage s ms) =
       handled s @ concat (map (\<lambda>m'. map (\<lambda>client. (client, SocketMessage (sequenceId s) m'))
                                       (clients s)) ms)"
    by (rule handled_foldl_dispatchMessage)
  have i: "handled (dispatchMessage s m) =
       handled s @ map (\<lambda>client. (client, SocketMessage (sequenceId s) m)) (clients s)"
    "clients (addListener s c) = clients s @ [c]"
    "clients (removeListener s c) = filter (\<lambda>x. x \<noteq> c) (clients s)"
    "clients (dispatchMessage s m) = clients s"
    by (simp_all add: dispatchMessage_def addListener_def removeListener_def)
  show ?thesis
    using a b c d e g i by blast
qed

theorem removeListener_idempotent_and_delivery_in_subscription_order_witness:
  "2 \<notin> set (clients (addListener init 1))
   \<and> removeListener (addListener init 1) 2 = addListener init 1
   \<and> received 1 (foldl dispatchMessage (removeListener (addListener init 1) 1)
        [DeleteListMessage 0, DeleteListMessage 0]) = []
   \<and> handled (dispatchMessage (foldl addListener init [3, 1, 2]) (DeleteListMessage 0)) =
       [(3, SocketMessage 0 (DeleteListMessage 0)),
        (1, SocketMessage 0 (DeleteListMessage 0)),
        (2, SocketMessage 0 (DeleteListMessage 0))]
   \<and> handled (foldl dispatchMessage (foldl addListener init [3, 1, 2])
        [DeleteListMessage 0, DeleteListMessage 1]) =
       [(3, SocketMessage 0 (DeleteListMessage 0)),
        (1, SocketMessage 0 (DeleteListMessage 0)),
        (2, SocketMessage 0 (DeleteListMessage 0)),
        (3, SocketMessage 0 (DeleteListMessage 1)),
        (1, SocketMessage 0 (DeleteListMessage 1)),
        (2, SocketMessage 0 (DeleteListMessage 1))]
   \<and> handled (foldl dispatchMessage (removeListener (foldl addListener init [3, 1, 2]) 1)
        [DeleteListMessage 0, DeleteListMessage 1]) =
       [(3, SocketMessage 0 (DeleteListMessage 0)),
        (2, SocketMessage 0 (DeleteListMessage 0)),
        (3, SocketMessage 0 (DeleteListMessage 1)),
        (2, SocketMessage 0 (DeleteListMessage 1))]"
proof -
  have h: "2 \<notin> set (clients (addListener init 1))"
    by (simp add: addListener_def init_def)
  show ?thesis
    using h
      removeListener_idempotent_and_delivery_in_subscription_order
        [of 2 "addListener init 1" "[]" "DeleteListMessage 0" "[3, 1, 2]"]
      removeListener_idempotent_and_delivery_in_subscription_order
        [of 1 "addListener init 1" "[DeleteListMessage 0, DeleteListMessage 0]"
          "DeleteListMessage 0" "[3, 1, 2]"]
      removeListener_idempotent_and_delivery_in_subscription_order
        [of 1 "addListener init 1" "[DeleteListMessage 0, DeleteListMessage 1]"
          "DeleteListMessage 0" "[3, 1, 2]"]
    by (simp add: received_def addListener_def init_def)
qed

text \<open>
  C9. \<open>addListener\<close> does not look for the client among the clients: added twice, it
  is twice at the end of the array; a client that was not subscribed before is then
  handed every message of any run of dispatches twice (in general two times more than
  it was subscribed before); one \<open>removeListener\<close> takes every occurrence of it
  away, and the dispatches after it hand the client nothing.
\<close>

theorem double_subscription_delivers_twice:
  "clients (addListener (addListener s c) c) = clients s @ [c, c]
   \<and> (c \<notin> set (clients s) \<longrightarrow>
        received c (dispatchMessage (addListener (addListener s c) c) m) =
          received c s @ [SocketMessage (sequenceId s) m, SocketMessage (sequenceId s) m])
   \<and> clients (removeListener (addListener (addListener s c) c) c) =
       filter (\<lambda>x. x \<noteq> c) (clients s)
   \<and> c \<notin> set (clients (removeListener (addListener (addListener s c) c) c))
   \<and> (c \<notin> set (clients s) \<longrightarrow>
        received c (foldl dispatchMessage (addListener (addListener s c) c) ms) =
          received c s @
          concat (map (\<lambda>m'. [SocketMessage (sequenceId s) m', SocketMessage (sequenceId s) m'])
                    ms))
   \<and> received c (foldl dispatchMessage (addListener (addListener s c) c) ms) =
       received c s @
       concat (map (\<lambda>m'. replicate (count_list (clients s) c + 2)
                            (SocketMessage (sequenceId s) m')) ms)
   \<and> received c (foldl dispatchMessage
        (removeListener (foldl dispatchMessage (addListener (addListener s c) c) ms) c) ms') =
       received c (foldl dispatchMessage (addListener (addListener s c) c) ms)"
proof -
  let ?s2 = "addListener (addListener s c) c"
  have r: "received c ?s2 = received c s"
    by (simp add: received_def addListener_def)
  have n: "count_list (clients ?s2) c = count_list (clients s) c + 2"
    by (simp add: addListener_def)
  have q: "sequenceId ?s2 = sequenceId s"
    by (simp add: addListener_def)
  have one: "c \<notin> set (clients s) \<longrightarrow>
        received c (dispatchMessage ?s2 m) =
          received c s @ [SocketMessage (sequenceId s) m, SocketMessage (sequenceId s) m]"
    using r n q by (simp add: received_dispatchMessage count_list_0_iff numeral_2_eq_2)
  have gen: "received c (foldl dispatchMessage ?s2 ms) =
       received c s @
       concat (map (\<lambda>m'. replicate (count_list (clients s) c + 2)
                            (SocketMessage (sequenceId s) m')) ms)"
    using r n q by (simp add: received_run_of_dispatches)
  have run: "c \<notin> set (clients s) \<longrightarrow>
        received c (foldl dispatchMessage ?s2 ms) =
          received c s @
          concat (map (\<lambda>m'. [SocketMessage (sequenceId s) m', SocketMessage (sequenceId s) m'])
                    ms)"
    using gen by (simp add: count_list_0_iff numeral_2_eq_2)
  have "c \<notin> set (clients (removeListener (foldl dispatchMessage ?s2 ms) c))"
    by (simp add: removeListener_def)
  then have "received c (foldl dispatchMessage
        (removeListener (foldl dispatchMessage ?s2 ms) c) ms') =
       received c (removeListener (foldl dispatchMessage ?s2 ms) c)"
    by (rule received_foldl_dispatchMessage)
  then have after: "received c (foldl dispatchMessage
        (removeListener (foldl dispatchMessage ?s2 ms) c) ms') =
       received c (foldl dispatchMessage ?s2 ms)"
    by (simp add: received_def removeListener_def)
  have rest: "clients ?s2 = clients s @ [c, c]"
    "clients (removeListener ?s2 c) = filter (\<lambda>x. x \<noteq> c) (clients s)"
    "c \<notin> set (clients (removeListener ?s2 c))"
    by (simp_all add: addListener_def removeListener_def)
  show ?thesis
    using one gen run after rest by blast
qed

theorem double_subscription_delivers_twice_witness:
  "2 \<notin> set (clients (addListener init 1))
   \<and> clients (addListener (addListener (addListener init 1) 2) 2) = [1, 2, 2]
   \<and> received 2 (dispatchMessage (addListener (addListener (addListener init 1) 2) 2)
        (DeleteListMessage 0)) =
       [SocketMessage 0 (DeleteListMessage 0), SocketMessage 0 (DeleteListMessage 0)]
   \<and> clients (removeListener (addListener (addListener (addListener init 1) 2) 2) 2) = [1]
   \<and> received 2 (foldl dispatchMessage (addListener (addListener (addListener init 1) 2) 2)
        [DeleteListMessage 0, DeleteListMessage 1]) =
       [SocketMessage 0 (DeleteListMessage 0), SocketMessage 0 (DeleteListMessage 0),
        SocketMessage 0 (DeleteListMessage 1), SocketMessage 0 (DeleteListMessage 1)]"
proof -
  have h: "2 \<notin> set (clients (addListener init 1))"
    by (simp add: addListener_def init_def)
  show ?thesis
    using h double_subscription_delivers_twice
      [of "addListener init 1" 2 "DeleteListMessage 0"
                   "[DeleteListMessage 0, DeleteListMessage 1]" "[]"]
    by (simp add: received_def addListener_def init_def)
qed

end
